theory Spec2Isabelle
  imports Main "HOL-Library.AList"
begin

section \<open>Python dictionaries and exceptions\<close>

text \<open>
  The program of \<^verbatim>\<open>vacuum.py\<close> keeps the room and the candidate actions in Python
  dictionaries. A dictionary is modelled as an association list in insertion order whose
  keys are distinct. A missing key raises \<^verbatim>\<open>KeyError\<close>; calling \<^verbatim>\<open>None\<close> raises
  \<^verbatim>\<open>TypeError\<close>. Both are values of \<open>py_error\<close>, and a computation that may raise
  returns \<open>py_error + 'a\<close>.
\<close>

datatype py_error = KeyError | TypeError

definition getitem :: "('k \<times> 'v) list \<Rightarrow> 'k \<Rightarrow> py_error + 'v" where
  \<comment> \<open>\<^verbatim>\<open>d[k]\<close> as an expression\<close>
  "getitem d k = (case map_of d k of None \<Rightarrow> Inl KeyError | Some v \<Rightarrow> Inr v)"

definition setitem :: "('k \<times> 'v) list \<Rightarrow> 'k \<Rightarrow> 'v \<Rightarrow> ('k \<times> 'v) list" where
  \<comment> \<open>\<^verbatim>\<open>d[k] = v\<close>: overwrites in place, or appends a new key\<close>
  "setitem d k v = AList.update k v d"

definition len :: "('k \<times> 'v) list \<Rightarrow> int" where
  "len d = int (length d)"

section \<open>Environment\<close>

record percept =
  Left :: "int option"
  Right :: "int option"
  Centre :: int

definition get_environment :: "(int \<times> int) list \<Rightarrow> int \<Rightarrow> py_error + percept" where
  "get_environment environment st =
     (case (if st - 1 > 0
            then (case getitem environment (st - 1) of Inl e \<Rightarrow> Inl e | Inr v \<Rightarrow> Inr (Some v))
            else Inr None) of
        Inl e \<Rightarrow> Inl e
      | Inr left \<Rightarrow>
     (case (if st + 1 < len environment
            then (case getitem environment (st + 1) of Inl e \<Rightarrow> Inl e | Inr v \<Rightarrow> Inr (Some v))
            else Inr None) of
        Inl e \<Rightarrow> Inl e
      | Inr right \<Rightarrow>
     (case getitem environment st of
        Inl e \<Rightarrow> Inl e
      | Inr centre \<Rightarrow> Inr \<lparr>Left = left, Right = right, Centre = centre\<rparr>)))"

definition update_environment :: "(int \<times> int) list \<Rightarrow> int \<Rightarrow> (int \<times> int) list" where
  "update_environment environment st = setitem environment st 0"

fun is_clean_loop :: "(int \<times> int) list \<Rightarrow> int list \<Rightarrow> bool" where
  "is_clean_loop environment [] = True"
| "is_clean_loop environment (room # rooms) =
     (if getitem environment room = Inr 1 then False else is_clean_loop environment rooms)"

definition is_clean :: "(int \<times> int) list \<Rightarrow> bool" where
  "is_clean environment = is_clean_loop environment (map fst environment)"

section \<open>Vacuum cleaner\<close>

record vacuum_cleaner =
  environment :: "(int \<times> int) list"
  state :: int
  previous_state :: int
  cost :: int
  performance :: int

definition init :: "(int \<times> int) list \<Rightarrow> vacuum_cleaner" where
  \<comment> \<open>\<^verbatim>\<open>Vacuum_cleaner.__init__\<close> with \<^verbatim>\<open>INITIAL_STATE = 0\<close>\<close>
  "init env = \<lparr>environment = env, state = 0, previous_state = 0, cost = 0, performance = 0\<rparr>"

datatype action = Move_left | Move_right | Suck

record rule =
  Move_left_q :: bool
  Move_right_q :: bool
  Suck_q :: bool

definition get_actions :: "rule \<Rightarrow> (action \<times> int) list" where
  "get_actions r =
     (let actions = [];
          actions = (if Move_left_q r then setitem actions Move_left (- 1 - 1) else actions);
          actions = (if Move_right_q r then setitem actions Move_right (- 1 - 1) else actions);
          actions = (if Suck_q r then setitem actions Suck (1 - 1) else actions)
      in actions)"

definition agent_function :: "percept \<Rightarrow> (action \<times> int) list" where
  "agent_function p =
     get_actions \<lparr>Move_left_q = (if Left p = None then False else True),
                  Move_right_q = (if Right p = None then False else True),
                  Suck_q = (if Centre p = 1 then True else False)\<rparr>"

definition move_left :: "vacuum_cleaner \<Rightarrow> vacuum_cleaner" where
  "move_left s = s\<lparr>previous_state := state s, cost := cost s + 1,
                    performance := performance s - 1, state := state s - 1\<rparr>"

definition move_right :: "vacuum_cleaner \<Rightarrow> vacuum_cleaner" where
  "move_right s = s\<lparr>previous_state := state s, cost := cost s + 1,
                     performance := performance s - 1, state := state s + 1\<rparr>"

definition suck :: "vacuum_cleaner \<Rightarrow> vacuum_cleaner" where
  "suck s = s\<lparr>cost := cost s + 1, performance := performance s - 1, state := state s,
               environment := update_environment (environment s) (state s)\<rparr>"

fun call :: "action \<Rightarrow> vacuum_cleaner \<Rightarrow> vacuum_cleaner" where
  "call Move_left s = move_left s"
| "call Move_right s = move_right s"
| "call Suck s = suck s"

section \<open>Action selection\<close>

fun pick_loop ::
  "(action \<times> int) list \<Rightarrow> action option \<Rightarrow> action list \<Rightarrow> action option \<Rightarrow> py_error + action option"
where
  "pick_loop actions avoid [] action_to_pick = Inr action_to_pick"
| "pick_loop actions avoid (a # rest) None =
     (if Some a \<noteq> avoid then pick_loop actions avoid rest (Some a)
      else pick_loop actions avoid rest None)"
| "pick_loop actions avoid (a # rest) (Some b) =
     (case getitem actions a of
        Inl e \<Rightarrow> Inl e
      | Inr va \<Rightarrow>
     (case getitem actions b of
        Inl e \<Rightarrow> Inl e
      | Inr vb \<Rightarrow>
          if va > vb \<and> Some a \<noteq> avoid then pick_loop actions avoid rest (Some a)
          else pick_loop actions avoid rest (Some b)))"

definition pick_action :: "(action \<times> int) list \<Rightarrow> action option \<Rightarrow> py_error + action option" where
  "pick_action actions avoid = pick_loop actions avoid (map fst actions) None"

section \<open>Run loop\<close>

definition avoidance :: "vacuum_cleaner \<Rightarrow> action option" where
  \<comment> \<open>the \<^verbatim>\<open>if/elif/else\<close> of \<^verbatim>\<open>run\<close> that sets \<^verbatim>\<open>avoid\<close>\<close>
  "avoidance s =
     (if previous_state s = state s - 1 then Some Move_left
      else if previous_state s = state s + 1 then Some Move_right
      else None)"

definition select :: "vacuum_cleaner \<Rightarrow> (action \<times> int) list \<Rightarrow> py_error + action option" where
  "select s actions =
     (if len actions > 1 then pick_action actions (avoidance s)
      else pick_action actions None)"

definition tick :: "vacuum_cleaner \<Rightarrow> py_error + vacuum_cleaner" where
  \<comment> \<open>one iteration of the \<^verbatim>\<open>while\<close> body after the \<^verbatim>\<open>is_clean\<close> test\<close>
  "tick s =
     (case get_environment (environment s) (state s) of
        Inl e \<Rightarrow> Inl e
      | Inr p \<Rightarrow>
     (case select s (agent_function p) of
        Inl e \<Rightarrow> Inl e
      | Inr None \<Rightarrow> Inl TypeError
      | Inr (Some a) \<Rightarrow> Inr (call a s)))"

text \<open>
  \<^verbatim>\<open>run\<close> loops until the room is clean, which need not happen. The model counts
  the iterations it may still start: \<open>None\<close> means that the fuel ran out before the loop
  returned, \<open>Some (Inl e)\<close> that an exception left the loop, \<open>Some (Inr s)\<close> that the loop
  returned in the state \<open>s\<close> (whose \<open>cost\<close> is printed).
\<close>

fun run :: "nat \<Rightarrow> vacuum_cleaner \<Rightarrow> (py_error + vacuum_cleaner) option" where
  "run 0 s = None"
| "run (Suc fuel) s =
     (if is_clean (environment s) then Some (Inr s)
      else (case tick s of
              Inl e \<Rightarrow> Some (Inl e)
            | Inr s' \<Rightarrow> run fuel s'))"

section \<open>Well-formed rooms\<close>

text \<open>
  The room of the program has the keys \<open>0, \<dots>, N - 1\<close>, each once: the keys are
  distinct and lie in \<open>[0, N)\<close>, where \<open>N\<close> is the number of entries.
\<close>

definition dense :: "(int \<times> int) list \<Rightarrow> bool" where
  "dense g = (distinct (map fst g) \<and> (\<forall>k \<in> set (map fst g). 0 \<le> k \<and> k < len g))"

section \<open>Selection as the specification words it\<close>

text \<open>
  The specification describes the result of the selection as the first candidate, in
  iteration order, that has the maximal score among the candidates other than the avoided
  action. \<open>first_max\<close> is that description; it is compared with \<open>pick_action\<close> below.
\<close>

definition top_score :: "(action \<times> int) list \<Rightarrow> action \<times> int \<Rightarrow> bool" where
  "top_score cs c = (\<forall>d \<in> set cs. snd d \<le> snd c)"

definition first_max :: "(action \<times> int) list \<Rightarrow> action option \<Rightarrow> action option" where
  "first_max actions avoid =
     (let cs = filter (\<lambda>c. Some (fst c) \<noteq> avoid) actions
      in map_option fst (List.find (top_score cs) cs))"

section \<open>The sweep from the initial state\<close>

text \<open>
  From the initial position \<open>0\<close> the cleaner only moves to the right. \<open>sweeping\<close> is
  what holds of its state on the way: it is inside a room with keys \<open>[0, N)\<close>, it came
  from the left neighbour once it is beyond position \<open>1\<close>, and no cell to its left is
  dirty. \<open>remaining\<close> bounds the iterations that are left: two for each cell from the
  position on, and one more when the cell at the position is dirty.
\<close>

definition sweeping :: "vacuum_cleaner \<Rightarrow> bool" where
  "sweeping s =
     (dense (environment s) \<and> 0 \<le> state s \<and> state s < len (environment s) \<and>
      (1 < state s \<longrightarrow> previous_state s = state s - 1) \<and>
      (\<forall>k. 0 \<le> k \<and> k < state s \<longrightarrow> map_of (environment s) k \<noteq> Some 1))"

definition remaining :: "vacuum_cleaner \<Rightarrow> nat" where
  "remaining s =
     2 * nat (len (environment s) - state s) +
     (if map_of (environment s) (state s) = Some 1 then 1 else 0)"

section \<open>Auxiliary facts\<close>

lemmas model_defs = getitem_def setitem_def len_def get_environment_def update_environment_def
  is_clean_def get_actions_def agent_function_def move_left_def move_right_def suck_def
  pick_action_def avoidance_def select_def tick_def init_def

lemma update_fresh: "k \<notin> fst ` set d \<Longrightarrow> AList.update k v d = d @ [(k, v)]"
  by (induction d) auto

lemma map_of_update_other: "k' \<noteq> k \<Longrightarrow> map_of (AList.update k v d) k' = map_of d k'"
  by (simp add: update_conv')

section \<open>Sensing\<close>

text \<open>
  Claim C2. In a room with keys \<open>[0, N)\<close> the percept at a position \<open>p\<close> should hold
  the flag of \<open>p - 1\<close> as its left entry whenever \<open>p - 1 \<ge> 0\<close>. The test of
  \<^verbatim>\<open>get_environment\<close> is \<^verbatim>\<open>state - 1 > 0\<close>, so at \<open>p = 1\<close> the left entry is absent
  although cell \<open>0\<close> exists: in the room \<open>{0: 1, 1: 0}\<close> the percept at position \<open>1\<close> has
  no left neighbour.
\<close>

theorem sense_left_of_one:
  "get_environment [(0, 1), (1, 0)] 1 = Inr \<lparr>Left = None, Right = None, Centre = 0\<rparr>"
  by (simp add: model_defs)

text \<open>
  Claim C3. While some cell is dirty, the candidates derived from the percept at a position
  inside the room should not be empty. In the room \<open>{0: 1, 1: 0}\<close> at position \<open>1\<close> the
  room is not clean, both neighbours are sensed as absent, the centre is clean, and the
  candidate dictionary is empty.
\<close>

theorem no_candidates_at_one:
  "\<not> is_clean [(0, 1), (1, 0)] \<and>
   get_environment [(0, 1), (1, 0)] 1 = Inr \<lparr>Left = None, Right = None, Centre = 0\<rparr> \<and>
   agent_function \<lparr>Left = None, Right = None, Centre = 0\<rparr> = []"
  by (simp add: model_defs)

text \<open>
  Claim C6, as the claim states it: cleaning at a position outside \<open>[0, N)\<close> should fail
  and leave the room as it was. The assignment \<^verbatim>\<open>self.environment[state] = 0\<close> on a
  dictionary does not fail: cleaning position \<open>5\<close> of the room \<open>{0: 1}\<close> adds the cell
  \<open>5\<close>.
\<close>

theorem clean_outside_extends: "update_environment [(0, 1)] 5 = [(0, 1), (5, 0)]"
  by (simp add: update_environment_def setitem_def)

text \<open>
  Claim C6, amended. For a position \<open>p\<close> outside \<open>[0, N)\<close> of a room with keys
  \<open>[0, N)\<close>, sensing fails with \<^verbatim>\<open>KeyError\<close>, and cleaning does not fail: it appends
  the cell \<open>p\<close> with flag \<open>0\<close> and leaves the cells of the room as they were.
\<close>

theorem outside_range:
  assumes "dense g" and "p < 0 \<or> len g \<le> p"
  shows "get_environment g p = Inl KeyError \<and> update_environment g p = g @ [(p, 0)]"
proof -
  from assms have notin: "p \<notin> fst ` set g"
    by (auto simp: dense_def)
  then have "map_of g p = None"
    by (simp add: map_of_eq_None_iff)
  then have "get_environment g p = Inl KeyError"
    by (auto simp: get_environment_def getitem_def split: option.splits)
  moreover from notin have "update_environment g p = g @ [(p, 0)]"
    by (simp add: update_environment_def setitem_def update_fresh)
  ultimately show ?thesis by simp
qed

theorem outside_range_witness:
  "dense [(0, 1), (1, 0)] \<and> (len [(0, 1), (1, 0 :: int)] \<le> (2::int)) \<and>
   get_environment [(0, 1), (1, 0)] 2 = Inl KeyError \<and>
   update_environment [(0, 1), (1, 0)] 2 = [(0, 1), (1, 0), (2, 0)]"
proof -
  have d: "dense [(0, 1), (1, 0)]" by (simp add: dense_def len_def)
  have r: "(2::int) < 0 \<or> len [(0, 1), (1, 0 :: int)] \<le> (2::int)" by (simp add: len_def)
  show ?thesis using d r outside_range [OF d r] by simp
qed

section \<open>Executing an action\<close>

text \<open>
  Claim C7. Every executed action adds \<open>1\<close> to the cost; a move subtracts \<open>1\<close> from the
  performance, and sucking should add \<open>1\<close> to it, the payoff that \<^verbatim>\<open>get_actions\<close>
  gives to sucking. \<^verbatim>\<open>suck\<close> subtracts \<open>1\<close> instead, as the moves do.
\<close>

theorem payoff_bookkeeping:
  "cost (suck s) = cost s + 1 \<and> performance (suck s) = performance s - 1 \<and>
   cost (move_left s) = cost s + 1 \<and> performance (move_left s) = performance s - 1 \<and>
   cost (move_right s) = cost s + 1 \<and> performance (move_right s) = performance s - 1"
  by (simp add: suck_def move_left_def move_right_def)

text \<open>
  Claim C10. Sucking keeps the position and the previous position and changes no cell
  other than the one at the position. A move keeps every cell, shifts the position by
  one to the left or to the right, and records the old position as the previous one.
\<close>

theorem action_frame:
  "state (suck s) = state s \<and> previous_state (suck s) = previous_state s \<and>
   (\<forall>k. k \<noteq> state s \<longrightarrow> getitem (environment (suck s)) k = getitem (environment s) k) \<and>
   environment (move_left s) = environment s \<and> state (move_left s) = state s - 1 \<and>
   previous_state (move_left s) = state s \<and>
   environment (move_right s) = environment s \<and> state (move_right s) = state s + 1 \<and>
   previous_state (move_right s) = state s"
  by (simp add: suck_def move_left_def move_right_def update_environment_def setitem_def
      getitem_def map_of_update_other)

theorem action_frame_witness:
  "(1::int) \<noteq> 0 \<and>
   getitem (environment (suck (init [(0, 1), (1, 1)]))) 1 =
     getitem (environment (init [(0, 1), (1, 1)])) 1 \<and>
   getitem (environment (suck (init [(0, 1), (1, 1)]))) 1 = Inr 1 \<and>
   state (move_right (init [(0, 1), (1, 1)])) = 1"
  using action_frame [of "init [(0, 1), (1, 1)]"] by (simp add: init_def getitem_def)

section \<open>An empty set of candidates\<close>

text \<open>
  Claim C5. When the room is not clean and the rules give no candidate, the run loop is
  left by an exception and no action is executed: \<^verbatim>\<open>pick_action\<close> returns \<^verbatim>\<open>None\<close>,
  and calling it raises \<^verbatim>\<open>TypeError\<close>.
\<close>

theorem empty_candidates_abort:
  assumes "\<not> is_clean (environment s)"
    and "get_environment (environment s) (state s) = Inr p"
    and "agent_function p = []"
  shows "select s (agent_function p) = Inr None \<and> tick s = Inl TypeError \<and>
         run (Suc fuel) s = Some (Inl TypeError)"
  using assms by (simp add: tick_def select_def pick_action_def len_def)

theorem empty_candidates_abort_witness:
  "\<not> is_clean [(0, 1), (1, 0)] \<and>
   get_environment [(0, 1), (1, 0)] 1 = Inr \<lparr>Left = None, Right = None, Centre = 0\<rparr> \<and>
   agent_function \<lparr>Left = None, Right = None, Centre = 0\<rparr> = [] \<and>
   run (Suc 0) \<lparr>environment = [(0, 1), (1, 0)], state = 1, previous_state = 0, cost = 1,
                performance = - 1\<rparr> = Some (Inl TypeError)"
proof -
  let ?s = "\<lparr>environment = [(0, 1), (1, 0)], state = 1, previous_state = 0, cost = 1,
                performance = - 1\<rparr>"
  let ?p = "\<lparr>Left = None, Right = None, Centre = 0\<rparr>"
  have a: "\<not> is_clean (environment ?s)" by (simp add: model_defs)
  have b: "get_environment (environment ?s) (state ?s) = Inr ?p" by (simp add: model_defs)
  have c: "agent_function ?p = []" by (simp add: model_defs)
  from empty_candidates_abort [OF a b c, of 0] a b c show ?thesis by simp
qed

section \<open>Selection\<close>

lemma getitem_member:
  "distinct (map fst d) \<Longrightarrow> (k, v) \<in> set d \<Longrightarrow> getitem d k = Inr v"
  by (simp add: getitem_def)

lemma find_top_replace:
  assumes "w < v"
  shows "List.find (top_score ((b, w) # (a, v) # r)) ((b, w) # (a, v) # r) =
         List.find (top_score ((a, v) # r)) ((a, v) # r)"
proof -
  have "\<not> top_score ((b, w) # (a, v) # r) (b, w)"
    using assms by (auto simp: top_score_def)
  moreover have "List.find (top_score ((b, w) # (a, v) # r)) ((a, v) # r) =
      List.find (top_score ((a, v) # r)) ((a, v) # r)"
    using assms by (intro find_cong) (auto simp: top_score_def)
  ultimately show ?thesis by simp
qed

lemma find_top_keep:
  assumes "v \<le> w"
  shows "List.find (top_score ((b, w) # (a, v) # r)) ((b, w) # (a, v) # r) =
         List.find (top_score ((b, w) # r)) ((b, w) # r)"
proof (cases "top_score ((b, w) # r) (b, w)")
  case True
  then have "top_score ((b, w) # (a, v) # r) (b, w)"
    using assms by (auto simp: top_score_def)
  with True show ?thesis by simp
next
  case False
  then obtain d where d: "d \<in> set r" "w < snd d"
    by (auto simp: top_score_def)
  then have nb: "\<not> top_score ((b, w) # (a, v) # r) (b, w)"
    and na: "\<not> top_score ((b, w) # (a, v) # r) (a, v)"
    using assms by (force simp: top_score_def not_le)+
  have "List.find (top_score ((b, w) # (a, v) # r)) r = List.find (top_score ((b, w) # r)) r"
    using assms by (intro find_cong) (auto simp: top_score_def)
  with nb na False show ?thesis by simp
qed

lemma pick_loop_best:
  assumes "distinct (map fst actions)" and "(b, w) \<in> set actions" and "set ps \<subseteq> set actions"
  shows "pick_loop actions avoid (map fst ps) (Some b) =
         Inr (map_option fst
           (List.find (top_score ((b, w) # filter (\<lambda>c. Some (fst c) \<noteq> avoid) ps))
                      ((b, w) # filter (\<lambda>c. Some (fst c) \<noteq> avoid) ps)))"
  using assms(2,3)
proof (induction ps arbitrary: b w)
  case Nil
  then show ?case by (simp add: top_score_def)
next
  case (Cons c ps)
  obtain a v where c: "c = (a, v)" by (cases c)
  from Cons.prems c have av: "(a, v) \<in> set actions" and ps: "set ps \<subseteq> set actions"
    by auto
  have ga: "getitem actions a = Inr v"
    using assms(1) av by (rule getitem_member)
  have gb: "getitem actions b = Inr w"
    using assms(1) Cons.prems(1) by (rule getitem_member)
  show ?case
  proof (cases "w < v \<and> Some a \<noteq> avoid")
    case True
    then show ?thesis
      using Cons.IH [OF av ps] ga gb c by (simp add: find_top_replace del: find.simps)
  next
    case False
    show ?thesis
    proof (cases "Some a \<noteq> avoid")
      case True
      with False have "v \<le> w" by simp
      then show ?thesis
        using Cons.IH [OF Cons.prems(1) ps] ga gb c True
        by (simp add: find_top_keep del: find.simps)
    next
      case False
      then show ?thesis
        using Cons.IH [OF Cons.prems(1) ps] ga gb c by (simp del: find.simps)
    qed
  qed
qed

lemma pick_loop_first_max:
  assumes "distinct (map fst actions)" and "set ps \<subseteq> set actions"
  shows "pick_loop actions avoid (map fst ps) None = Inr (first_max ps avoid)"
  using assms(2)
proof (induction ps)
  case Nil
  then show ?case by (simp add: first_max_def)
next
  case (Cons c ps)
  obtain a v where c: "c = (a, v)" by (cases c)
  from Cons.prems c have av: "(a, v) \<in> set actions" and ps: "set ps \<subseteq> set actions"
    by auto
  show ?case
  proof (cases "Some a \<noteq> avoid")
    case True
    then show ?thesis
      using pick_loop_best [OF assms(1) av ps, of avoid] c
      by (simp add: first_max_def Let_def del: find.simps)
  next
    case False
    then show ?thesis
      using Cons.IH [OF ps] c by (simp add: first_max_def)
  qed
qed

text \<open>
  Claim C9. \<^verbatim>\<open>pick_action\<close> is a function of the candidate dictionary (its entries in
  iteration order, with their scores) and of the avoided action: equal arguments give the
  equal result. The result is the first candidate, in iteration order, whose score is
  maximal among the candidates that are not avoided, and no \<^verbatim>\<open>KeyError\<close> is raised.
\<close>

theorem pick_action_first_max:
  assumes "distinct (map fst actions)"
  shows "pick_action actions avoid = Inr (first_max actions avoid) \<and>
         (actions' = actions \<and> avoid' = avoid \<longrightarrow>
            pick_action actions' avoid' = pick_action actions avoid)"
  using pick_loop_first_max [OF assms, of actions avoid] by (simp add: pick_action_def)

theorem pick_action_first_max_witness:
  "distinct (map fst [(Move_left, - 2), (Move_right, - 2), (Suck, 0 :: int)]) \<and>
   pick_action [(Move_left, - 2), (Move_right, - 2)] (Some Move_left) = Inr (Some Move_right) \<and>
   pick_action [(Move_left, - 2), (Move_right, - 2)] None = Inr (Some Move_left) \<and>
   first_max [(Move_left, - 2), (Move_right, - 2)] None = Some Move_left \<and>
   first_max [(Move_left, - 2), (Move_right, - 2), (Suck, 0)] (Some Move_left) = Some Suck"
proof -
  have d: "distinct (map fst [(Move_left, - 2), (Move_right, - 2 :: int)])" by simp
  have e: "distinct (map fst [(Move_left, - 2), (Move_right, - 2), (Suck, 0 :: int)])" by simp
  show ?thesis
    using pick_action_first_max [OF d, of "Some Move_left"] pick_action_first_max [OF d, of None]
      pick_action_first_max [OF e, of "Some Move_left"]
    by (simp add: first_max_def top_score_def)
qed

lemma first_max_Some:
  assumes "c \<in> set actions" and "Some (fst c) \<noteq> avoid"
  shows "\<exists>a. first_max actions avoid = Some a \<and> a \<in> fst ` set actions \<and> Some a \<noteq> avoid"
proof -
  let ?cs = "filter (\<lambda>c. Some (fst c) \<noteq> avoid) actions"
  from assms have "c \<in> set ?cs" by simp
  then have ne: "?cs \<noteq> []" by (metis empty_iff empty_set)
  then have "set ?cs \<noteq> {}" by (simp only: set_empty not_False_eq_True)
  then have "snd ` set ?cs \<noteq> {}" by (simp only: image_is_empty not_False_eq_True)
  moreover have "finite (snd ` set ?cs)" by (rule finite_imageI) (rule finite_set)
  ultimately have "Max (snd ` set ?cs) \<in> snd ` set ?cs" by (rule_tac Max_in)
  then obtain d where d: "d \<in> set ?cs" "snd d = Max (snd ` set ?cs)" by auto
  then have "top_score ?cs d" by (auto simp: top_score_def)
  with d(1) have "List.find (top_score ?cs) ?cs \<noteq> None"
    unfolding find_None_iff by blast
  then obtain e where e: "List.find (top_score ?cs) ?cs = Some e" by auto
  then have "e \<in> set ?cs" by (metis find_Some_iff nth_mem)
  then have "e \<in> set actions" "Some (fst e) \<noteq> avoid" by simp_all
  with e show ?thesis by (simp add: first_max_def)
qed

text \<open>
  Claim C8. For a candidate dictionary that is not empty, the selection of the run loop
  returns one of its actions and never \<^verbatim>\<open>None\<close>. A single candidate is returned
  whatever the previous position is, also when it is the action that would be avoided.
\<close>

theorem select_returns_action:
  assumes "actions \<noteq> []" and "distinct (map fst actions)"
  shows "(\<exists>a. select s actions = Inr (Some a) \<and> a \<in> fst ` set actions) \<and>
         (\<forall>a v. actions = [(a, v)] \<longrightarrow> select s actions = Inr (Some a))"
proof
  show "\<exists>a. select s actions = Inr (Some a) \<and> a \<in> fst ` set actions"
  proof (cases "len actions > 1")
    case True
    then obtain c d r where cd: "actions = c # d # r"
      by (cases actions; cases "tl actions") (auto simp: len_def)
    with assms(2) have "fst c \<noteq> fst d" by auto
    then have "Some (fst c) \<noteq> avoidance s \<or> Some (fst d) \<noteq> avoidance s"
      by (metis option.inject)
    moreover have "c \<in> set actions" "d \<in> set actions"
      using cd by simp_all
    ultimately obtain e where "e \<in> set actions" "Some (fst e) \<noteq> avoidance s"
      by blast
    from first_max_Some [OF this] pick_loop_first_max [OF assms(2), of actions "avoidance s"] True
    show ?thesis by (auto simp: select_def pick_action_def)
  next
    case False
    from assms(1) obtain e where "e \<in> set actions" "Some (fst e) \<noteq> None"
      by (cases actions) auto
    from first_max_Some [OF this] pick_loop_first_max [OF assms(2), of actions None] False
    show ?thesis by (auto simp: select_def pick_action_def)
  qed
next
  show "\<forall>a v. actions = [(a, v)] \<longrightarrow> select s actions = Inr (Some a)"
    by (simp add: select_def pick_action_def len_def)
qed

theorem select_returns_action_witness:
  "[(Move_left, - 2 :: int)] \<noteq> [] \<and> distinct (map fst [(Move_left, - 2 :: int)]) \<and>
   avoidance \<lparr>environment = [(0, 0), (1, 0), (2, 1)], state = 2, previous_state = 1, cost = 3,
              performance = - 3\<rparr> = Some Move_left \<and>
   select \<lparr>environment = [(0, 0), (1, 0), (2, 1)], state = 2, previous_state = 1, cost = 3,
           performance = - 3\<rparr> [(Move_left, - 2)] = Inr (Some Move_left)"
proof -
  have a: "[(Move_left, - 2 :: int)] \<noteq> []" by simp
  have b: "distinct (map fst [(Move_left, - 2 :: int)])" by simp
  show ?thesis
    using a b select_returns_action [OF a b, of "\<lparr>environment = [(0, 0), (1, 0), (2, 1)], state = 2, previous_state = 1, cost = 3,
              performance = - 3\<rparr>"]
    by (simp add: avoidance_def)
qed

section \<open>Runs\<close>

text \<open>
  Claim C4. The run on the room \<open>{0: 0, 1: 0, 2: 1}\<close> from position \<open>0\<close>, tick by tick.
  Ticks 1, 3 and 4 are as the claim describes them, and the run returns with cost \<open>3\<close>.
  At tick 2 the claim expects the percept \<open>{left: 0, right: 1, centre: 0}\<close> and the
  candidates \<open>move_left\<close> and \<open>move_right\<close>; the code senses no left neighbour at
  position \<open>1\<close>, and \<open>move_right\<close> is the only candidate.
\<close>

theorem scenario_trace:
  "get_environment [(0, 0), (1, 0), (2, 1)] 0 = Inr \<lparr>Left = None, Right = Some 0, Centre = 0\<rparr> \<and>
   agent_function \<lparr>Left = None, Right = Some 0, Centre = 0\<rparr> = [(Move_right, - 2)] \<and>
   tick (init [(0, 0), (1, 0), (2, 1)]) =
     Inr \<lparr>environment = [(0, 0), (1, 0), (2, 1)], state = 1, previous_state = 0, cost = 1,
          performance = - 1\<rparr> \<and>
   get_environment [(0, 0), (1, 0), (2, 1)] 1 = Inr \<lparr>Left = None, Right = Some 1, Centre = 0\<rparr> \<and>
   agent_function \<lparr>Left = None, Right = Some 1, Centre = 0\<rparr> = [(Move_right, - 2)] \<and>
   tick \<lparr>environment = [(0, 0), (1, 0), (2, 1)], state = 1, previous_state = 0, cost = 1,
         performance = - 1\<rparr> =
     Inr \<lparr>environment = [(0, 0), (1, 0), (2, 1)], state = 2, previous_state = 1, cost = 2,
          performance = - 2\<rparr> \<and>
   get_environment [(0, 0), (1, 0), (2, 1)] 2 = Inr \<lparr>Left = Some 0, Right = None, Centre = 1\<rparr> \<and>
   agent_function \<lparr>Left = Some 0, Right = None, Centre = 1\<rparr> = [(Move_left, - 2), (Suck, 0)] \<and>
   avoidance \<lparr>environment = [(0, 0), (1, 0), (2, 1)], state = 2, previous_state = 1, cost = 2,
              performance = - 2\<rparr> = Some Move_left \<and>
   tick \<lparr>environment = [(0, 0), (1, 0), (2, 1)], state = 2, previous_state = 1, cost = 2,
         performance = - 2\<rparr> =
     Inr \<lparr>environment = [(0, 0), (1, 0), (2, 0)], state = 2, previous_state = 1, cost = 3,
          performance = - 3\<rparr> \<and>
   is_clean [(0, 0), (1, 0), (2, 0)] \<and>
   run 4 (init [(0, 0), (1, 0), (2, 1)]) =
     Some (Inr \<lparr>environment = [(0, 0), (1, 0), (2, 0)], state = 2, previous_state = 1, cost = 3,
                performance = - 3\<rparr>)"
  by (simp add: model_defs numeral_eq_Suc)

text \<open>
  After cell \<open>2\<close> of the room \<open>{0: 1, 1: 0, 2: 1}\<close> has been cleaned, the cleaner moves
  between the positions \<open>2\<close> and \<open>1\<close>: at position \<open>1\<close> no left neighbour is sensed,
  and at position \<open>2\<close> moving left is the only candidate.
\<close>

lemma bounce:
  "run fuel \<lparr>environment = [(0, 1), (1, 0), (2, 0)], state = 2, previous_state = 1, cost = c,
             performance = p\<rparr> = None \<and>
   run fuel \<lparr>environment = [(0, 1), (1, 0), (2, 0)], state = 1, previous_state = 2, cost = c,
             performance = p\<rparr> = None"
proof (induction fuel arbitrary: c p)
  case 0
  show ?case by simp
next
  case (Suc fuel)
  have l: "tick \<lparr>environment = [(0, 1), (1, 0), (2, 0)], state = 2, previous_state = 1, cost = c,
             performance = p\<rparr> = Inr \<lparr>environment = [(0, 1), (1, 0), (2, 0)], state = 1, previous_state = 2, cost = c + 1,
             performance = p - 1\<rparr>"
    by (simp add: model_defs)
  have r: "tick \<lparr>environment = [(0, 1), (1, 0), (2, 0)], state = 1, previous_state = 2, cost = c,
             performance = p\<rparr> = Inr \<lparr>environment = [(0, 1), (1, 0), (2, 0)], state = 2, previous_state = 1, cost = c + 1,
             performance = p - 1\<rparr>"
    by (simp add: model_defs)
  have d: "\<not> is_clean [(0, 1), (1, 0), (2, 0)]"
    by (simp add: model_defs)
  show ?case using Suc [of "c + 1" "p - 1"] l r d by simp
qed

text \<open>
  Claim C1. From every position of a room with keys \<open>[0, N)\<close> the run should reach a
  clean room and return, and on the room \<open>{0: 1, 1: 0, 2: 1}\<close> from position \<open>1\<close> the
  cleaner should not move between two cells for ever while a cell is dirty. On that
  input the run returns for no number of iterations, neither normally nor by an
  exception: cell \<open>0\<close> stays dirty.
\<close>

theorem run_bounces:
  "run fuel \<lparr>environment = [(0, 1), (1, 0), (2, 1)], state = 1, previous_state = q, cost = c,
             performance = p\<rparr> = None"
proof (cases fuel)
  case 0
  then show ?thesis by simp
next
  case (Suc m)
  have d: "\<not> is_clean [(0, 1), (1, 0), (2, 1)]"
    by (simp add: model_defs)
  have t1: "tick \<lparr>environment = [(0, 1), (1, 0), (2, 1)], state = 1, previous_state = q, cost = c,
             performance = p\<rparr> = Inr \<lparr>environment = [(0, 1), (1, 0), (2, 1)], state = 2, previous_state = 1, cost = c + 1,
             performance = p - 1\<rparr>"
    by (simp add: model_defs)
  have t2: "tick \<lparr>environment = [(0, 1), (1, 0), (2, 1)], state = 2, previous_state = 1, cost = c + 1,
             performance = p - 1\<rparr> = Inr \<lparr>environment = [(0, 1), (1, 0), (2, 0)], state = 2, previous_state = 1, cost = c + 1 + 1,
             performance = p - 1 - 1\<rparr>"
    by (simp add: model_defs)
  show ?thesis
  proof (cases m)
    case 0
    with Suc d t1 show ?thesis by simp
  next
    case (Suc k)
    with \<open>fuel = Suc m\<close> d t1 t2 bounce [of k "c + 1 + 1" "p - 1 - 1"] show ?thesis by simp
  qed
qed

section \<open>Termination of the sweep\<close>

lemma dense_keys:
  assumes "dense g"
  shows "fst ` set g = {0..<len g}"
proof -
  have sub: "fst ` set g \<subseteq> {0..<len g}"
    using assms by (auto simp: dense_def)
  have "card (fst ` set g) = length g"
    using assms distinct_card [of "map fst g"] by (simp add: dense_def)
  then have "card (fst ` set g) = card {0..<len g}"
    by (simp add: len_def)
  with sub show ?thesis
    by (intro card_subset_eq) simp_all
qed

lemma dense_lookup:
  assumes "dense g" and "0 \<le> k" and "k < len g"
  shows "\<exists>v. map_of g k = Some v"
proof -
  from assms have "k \<in> fst ` set g" by (simp add: dense_keys)
  then show ?thesis by (metis map_of_eq_None_iff not_Some_eq)
qed

lemma dense_key_range:
  assumes "dense g" and "map_of g k = Some v"
  shows "0 \<le> k \<and> k < len g"
proof -
  from assms(2) have "k \<in> fst ` set g" by (metis map_of_eq_None_iff option.distinct(1))
  with assms(1) show ?thesis by (simp add: dense_keys)
qed

lemma is_clean_loop_iff:
  "is_clean_loop g ks \<longleftrightarrow> (\<forall>k \<in> set ks. map_of g k \<noteq> Some 1)"
  by (induction ks) (auto simp: getitem_def split: option.splits)

lemma is_clean_iff: "is_clean g \<longleftrightarrow> (\<forall>k. map_of g k \<noteq> Some 1)"
proof -
  have "map_of g k \<noteq> Some 1" if "k \<notin> fst ` set g" for k
    using that by (simp add: map_of_eq_None_iff [THEN iffD2])
  then show ?thesis
    unfolding is_clean_def is_clean_loop_iff by (metis list.set_map)
qed

lemma update_length: "k \<in> fst ` set d \<Longrightarrow> length (AList.update k v d) = length d"
  by (induction d) auto

lemma dense_update:
  assumes "dense g" and "0 \<le> k" and "k < len g"
  shows "dense (update_environment g k)"
proof -
  from assms have "k \<in> fst ` set g" by (simp add: dense_keys)
  then have "map fst (AList.update k 0 g) = map fst g"
    by (simp add: update_keys)
  moreover have "length (AList.update k 0 g) = length g"
    using \<open>k \<in> fst ` set g\<close> by (rule update_length)
  ultimately show ?thesis
    using assms(1) by (simp add: dense_def update_environment_def setitem_def len_def)
qed

lemma sense_dense:
  assumes "dense g" and "0 \<le> i" and "i < len g" and "map_of g i = Some c"
  shows "get_environment g i =
           Inr \<lparr>Left = (if i - 1 > 0 then map_of g (i - 1) else None),
                Right = (if i + 1 < len g then map_of g (i + 1) else None), Centre = c\<rparr>"
proof -
  have l: "\<exists>v. map_of g (i - 1) = Some v" if "i - 1 > 0"
    using that assms by (intro dense_lookup) simp_all
  have r: "\<exists>v. map_of g (i + 1) = Some v" if "i + 1 < len g"
    using that assms by (intro dense_lookup) simp_all
  show ?thesis
    using l r assms(4) by (auto simp: get_environment_def getitem_def)
qed

lemma pick_suck:
  assumes "Centre p = 1" and "avoid \<noteq> Some Suck"
  shows "pick_action (agent_function p) avoid = Inr (Some Suck)"
proof -
  consider "avoid = None" | "avoid = Some Move_left" | "avoid = Some Move_right"
    using assms(2) by (cases avoid) (auto intro: action.exhaust)
  then show ?thesis
    using assms(1)
    by cases (simp_all add: agent_function_def get_actions_def setitem_def pick_action_def getitem_def)
qed

lemma tick_dirty:
  assumes "sweeping s" and "map_of (environment s) (state s) = Some 1"
  shows "tick s = Inr (suck s)"
proof -
  from assms have g: "get_environment (environment s) (state s) =
      Inr \<lparr>Left = (if state s - 1 > 0 then map_of (environment s) (state s - 1) else None),
           Right = (if state s + 1 < len (environment s) then map_of (environment s) (state s + 1) else None),
           Centre = 1\<rparr>"
    by (intro sense_dense) (simp_all add: sweeping_def)
  have a: "avoidance s \<noteq> Some Suck" by (simp add: avoidance_def)
  show ?thesis
    unfolding tick_def g select_def by (simp add: pick_suck a)
qed

lemma tick_clean:
  assumes "sweeping s" and "\<not> is_clean (environment s)"
    and "map_of (environment s) (state s) \<noteq> Some 1"
  shows "state s + 1 < len (environment s) \<and> tick s = Inr (move_right s)"
proof -
  let ?g = "environment s" and ?i = "state s"
  from assms(1) have d: "dense ?g" and i: "0 \<le> ?i" "?i < len ?g"
    and before: "\<And>k. 0 \<le> k \<Longrightarrow> k < ?i \<Longrightarrow> map_of ?g k \<noteq> Some 1"
    and pre: "1 < ?i \<Longrightarrow> previous_state s = ?i - 1"
    by (simp_all add: sweeping_def)
  from assms(2) obtain k where k: "map_of ?g k = Some 1"
    by (auto simp: is_clean_iff)
  with d have kr: "0 \<le> k" "k < len ?g" by (simp_all add: dense_key_range)
  have "?i < k"
    using before [of k] kr k assms(3) by (cases "k = ?i") force+
  with kr have nx: "?i + 1 < len ?g" by simp
  from dense_lookup [OF d i] obtain c where c: "map_of ?g ?i = Some c" by blast
  with assms(3) have c1: "c \<noteq> 1" by auto
  from dense_lookup [OF d, of "?i + 1"] i nx obtain r where r: "map_of ?g (?i + 1) = Some r"
    by auto
  have g: "get_environment ?g ?i =
      Inr \<lparr>Left = (if ?i - 1 > 0 then map_of ?g (?i - 1) else None), Right = Some r, Centre = c\<rparr>"
    using sense_dense [OF d i c] nx r by simp
  have "tick s = Inr (move_right s)"
  proof (cases "?i - 1 > 0")
    case True
    with dense_lookup [OF d, of "?i - 1"] i obtain l where l: "map_of ?g (?i - 1) = Some l"
      by auto
    from True pre have "avoidance s = Some Move_left" by (simp add: avoidance_def)
    with True l c1 show ?thesis
      unfolding tick_def g
      by (simp add: select_def agent_function_def get_actions_def setitem_def pick_action_def
          getitem_def len_def)
  next
    case False
    with c1 show ?thesis
      unfolding tick_def g
      by (simp add: select_def agent_function_def get_actions_def setitem_def pick_action_def
          getitem_def len_def)
  qed
  with nx show ?thesis by simp
qed

lemma sweeping_suck:
  assumes "sweeping s"
  shows "sweeping (suck s)"
proof -
  let ?g = "environment s" and ?i = "state s"
  from assms have d: "dense ?g" and i: "0 \<le> ?i" "?i < len ?g"
    by (simp_all add: sweeping_def)
  have "dense (update_environment ?g ?i)" using d i by (rule dense_update)
  moreover have "len (update_environment ?g ?i) = len ?g"
    using d i by (simp add: update_environment_def setitem_def len_def update_length dense_keys)
  moreover have "map_of (update_environment ?g ?i) k \<noteq> Some 1" if "map_of ?g k \<noteq> Some 1" for k
    using that by (simp add: update_environment_def setitem_def update_conv')
  ultimately show ?thesis
    using assms by (simp add: sweeping_def suck_def)
qed

lemma remaining_suck:
  assumes "sweeping s" and "map_of (environment s) (state s) = Some 1"
  shows "remaining (suck s) < remaining s"
proof -
  let ?g = "environment s" and ?i = "state s"
  from assms have d: "dense ?g" and i: "0 \<le> ?i" "?i < len ?g"
    by (simp_all add: sweeping_def)
  have "len (update_environment ?g ?i) = len ?g"
    using d i by (simp add: update_environment_def setitem_def len_def update_length dense_keys)
  moreover have "map_of (update_environment ?g ?i) ?i = Some 0"
    by (simp add: update_environment_def setitem_def update_conv')
  ultimately show ?thesis
    using assms(2) by (simp add: remaining_def suck_def)
qed

lemma sweeping_move_right:
  assumes "sweeping s" and "map_of (environment s) (state s) \<noteq> Some 1"
    and "state s + 1 < len (environment s)"
  shows "sweeping (move_right s) \<and> remaining (move_right s) < remaining s"
proof -
  have "map_of (environment s) k \<noteq> Some 1" if "0 \<le> k" "k < state s + 1" for k
    using that assms(1,2) by (cases "k = state s") (simp_all add: sweeping_def)
  then have "sweeping (move_right s)"
    using assms(1,3) by (simp add: sweeping_def move_right_def)
  moreover have "nat (len (environment s) - (state s + 1)) + 1 = nat (len (environment s) - state s)"
    using assms(3) by simp
  then have "remaining (move_right s) < remaining s"
    using assms(2,3) by (simp add: remaining_def move_right_def)
  ultimately show ?thesis by simp
qed

lemma run_mono:
  assumes "run n s = Some r" and "n \<le> m"
  shows "run m s = Some r"
  using assms
proof (induction n arbitrary: m s)
  case 0
  then show ?case by simp
next
  case (Suc n)
  from Suc.prems(2) obtain m' where m: "m = Suc m'" "n \<le> m'"
    by (cases m) simp_all
  show ?case
  proof (cases "is_clean (environment s)")
    case True
    with Suc.prems(1) m show ?thesis by simp
  next
    case False
    show ?thesis
    proof (cases "tick s")
      case (Inl e)
      with False have "run (Suc n) s = Some (Inl e)" "run (Suc m') s = Some (Inl e)"
        by simp_all
      with Suc.prems(1) m(1) show ?thesis by simp
    next
      case (Inr s')
      with False Suc.prems(1) have "run n s' = Some r" by simp
      then have "run m' s' = Some r" using m(2) by (rule Suc.IH)
      with False Inr m show ?thesis by simp
    qed
  qed
qed

lemma sweeping_run:
  assumes "sweeping s"
  shows "\<exists>s'. run (Suc (remaining s)) s = Some (Inr s') \<and> is_clean (environment s')"
  using assms
proof (induction "remaining s" arbitrary: s rule: less_induct)
  case less
  show ?case
  proof (cases "is_clean (environment s)")
    case True
    then show ?thesis by simp
  next
    case False
    have "\<exists>t. tick s = Inr t \<and> sweeping t \<and> remaining t < remaining s"
    proof (cases "map_of (environment s) (state s) = Some 1")
      case True
      with less.prems show ?thesis
        using tick_dirty sweeping_suck remaining_suck by blast
    next
      case dirty: False
      from tick_clean [OF less.prems False dirty] sweeping_move_right [OF less.prems dirty]
      show ?thesis by blast
    qed
    then obtain t where t: "tick s = Inr t" "sweeping t" "remaining t < remaining s"
      by blast
    from less.hyps [OF t(3) t(2)] obtain s' where
      s': "run (Suc (remaining t)) t = Some (Inr s')" "is_clean (environment s')"
      by blast
    from t(3) have "Suc (remaining t) \<le> remaining s" by simp
    with s'(1) have "run (remaining s) t = Some (Inr s')" by (rule run_mono)
    with False t(1) s'(2) show ?thesis by simp
  qed
qed

text \<open>
  The run that \<^verbatim>\<open>main\<close> starts, from the position \<open>0\<close> that the constructor sets:
  for every room with keys \<open>[0, N)\<close> the loop returns, with every cell clean and with
  no exception, after at most \<open>2 * N + 1\<close> iterations.
\<close>

theorem run_from_initial_state:
  assumes "dense g"
  shows "\<exists>s'. run (2 * length g + 2) (init g) = Some (Inr s') \<and> is_clean (environment s')"
proof (cases "g = []")
  case True
  then show ?thesis by (simp add: init_def is_clean_def)
next
  case False
  with assms have sw: "sweeping (init g)"
    by (auto simp: sweeping_def init_def len_def)
  from sweeping_run [OF sw] obtain s' where
    s': "run (Suc (remaining (init g))) (init g) = Some (Inr s')" "is_clean (environment s')"
    by blast
  have "remaining (init g) \<le> 2 * length g + 1"
    by (simp add: remaining_def init_def len_def)
  then have "Suc (remaining (init g)) \<le> 2 * length g + 2" by simp
  with s'(1) have "run (2 * length g + 2) (init g) = Some (Inr s')" by (rule run_mono)
  with s'(2) show ?thesis by blast
qed

theorem run_from_initial_state_witness:
  "dense [(0, 0), (1, 0), (2, 1), (3, 0), (4, 1), (5, 0), (6, 1)] \<and>
   (\<exists>s'. run 16 (init [(0, 0), (1, 0), (2, 1), (3, 0), (4, 1), (5, 0), (6, 1)]) = Some (Inr s') \<and>
      is_clean (environment s'))"
proof -
  have d: "dense [(0, 0), (1, 0), (2, 1), (3, 0), (4, 1), (5, 0), (6, 1)]"
    by (simp add: dense_def len_def)
  from run_from_initial_state [OF d] d show ?thesis by simp
qed

end
